theory Spec2Isabelle
  imports Main "HOL-Library.AList"
begin

section \<open>Values, cache entries and the insertion-ordered Map\<close>

text \<open>
  The producers of the proxy resolve with the result of \<^verbatim>\<open>response.json()\<close>, a JSON
  value. Numbers are kept as integers: the code only ever tests a value for truthiness,
  and of the JSON numbers exactly zero is falsy.
\<close>

datatype json =
    JNull
  | JBool bool
  | JNum int
  | JStr string
  | JArr "json list"
  | JObj "(string \<times> json) list"

text \<open>JavaScript's ToBoolean on a JSON value: what \<^verbatim>\<open>if (cached)\<close> tests.\<close>

fun truthy :: "json \<Rightarrow> bool" where
  "truthy JNull = False"
| "truthy (JBool b) = b"
| "truthy (JNum n) = (n \<noteq> 0)"
| "truthy (JStr s) = (s \<noteq> [])"
| "truthy (JArr xs) = True"
| "truthy (JObj kvs) = True"

text \<open>The object literal \<^verbatim>\<open>{ data, expiry: Date.now() + duration }\<close> stored in the cache.\<close>

record entry =
  data :: json
  expiry :: int

text \<open>
  A JavaScript \<^verbatim>\<open>Map\<close> iterates in insertion order, and the cache relies on it, so a
  Map is an association list, oldest insertion first. \<^verbatim>\<open>Map.set\<close> on a key that is
  present replaces the value where it stands and appends otherwise; \<^verbatim>\<open>Map.delete\<close>
  removes the key; \<^verbatim>\<open>Map.get\<close> is \<^const>\<open>map_of\<close>.
\<close>

definition Map_set :: "('k \<times> 'v) list \<Rightarrow> 'k \<Rightarrow> 'v \<Rightarrow> ('k \<times> 'v) list" where
  "Map_set m k v = AList.update k v m"

definition Map_delete :: "('k \<times> 'v) list \<Rightarrow> 'k \<Rightarrow> ('k \<times> 'v) list" where
  "Map_delete m k = AList.delete k m"

definition Map_has :: "('k \<times> 'v) list \<Rightarrow> 'k \<Rightarrow> bool" where
  "Map_has m k = (map_of m k \<noteq> None)"

text \<open>
  \<^verbatim>\<open>m.delete(m.keys().next().value)\<close>: the first key in insertion order is removed; on
  an empty Map the iterator yields \<^verbatim>\<open>undefined\<close>, which is no key, and nothing happens.
\<close>

definition Map_delete_first :: "('k \<times> 'v) list \<Rightarrow> ('k \<times> 'v) list" where
  "Map_delete_first m = (case m of [] \<Rightarrow> [] | (oldestKey, _) # _ \<Rightarrow> Map_delete m oldestKey)"

section \<open>The standalone cache (setCache, getCache)\<close>

definition CACHE_DURATION :: int where
  "CACHE_DURATION = 10 * 60 * 1000"

definition MAX_CACHE_SIZE :: int where
  "MAX_CACHE_SIZE = 1000"

text \<open>
  \<^verbatim>\<open>setCache(key, data)\<close> on the module-level \<^verbatim>\<open>cache\<close>; \<open>now\<close> is the value of
  \<^verbatim>\<open>Date.now()\<close> in the call. A key that is present is deleted first. Two calls in the
  listing of this file are spelled with non-Latin identifiers; by their comments and by
  the class methods they are \<^verbatim>\<open>cache.keys().next().value\<close> and \<^verbatim>\<open>Date.now()\<close>.
\<close>

definition setCache :: "(string \<times> entry) list \<Rightarrow> int \<Rightarrow> string \<Rightarrow> json \<Rightarrow> (string \<times> entry) list" where
  "setCache cache now key d =
     (let cache1 = (if Map_has cache key then Map_delete cache key else cache);
          cache2 = (if int (length cache1) \<ge> MAX_CACHE_SIZE then Map_delete_first cache1 else cache1)
      in Map_set cache2 key \<lparr>data = d, expiry = now + CACHE_DURATION\<rparr>)"

text \<open>\<^verbatim>\<open>getCache(key)\<close>: the returned value (\<^const>\<open>JNull\<close> for \<^verbatim>\<open>null\<close>) and the cache afterwards.\<close>

definition getCache :: "(string \<times> entry) list \<Rightarrow> int \<Rightarrow> string \<Rightarrow> json \<times> (string \<times> entry) list" where
  "getCache cache now key =
     (case map_of cache key of
        None \<Rightarrow> (JNull, cache)
      | Some item \<Rightarrow>
          if now > expiry item then (JNull, Map_delete cache key)
          else (data item, Map_set (Map_delete cache key) key item))"

section \<open>RequestManager\<close>

text \<open>
  The fields of the class. The first variant has the two limits as module constants,
  the second reads them from \<^verbatim>\<open>options\<close> with the same values as defaults; a promise
  held in \<^verbatim>\<open>pendingRequests\<close> is named by a handle.
\<close>

record request_manager =
  cacheDuration :: int
  maxSize :: int
  dataCache :: "(string \<times> entry) list"
  pendingRequests :: "(string \<times> nat) list"

record options =
  opt_duration :: "int option"
  opt_maxSize :: "int option"

text \<open>\<^verbatim>\<open>x || d\<close> on an optional number: \<^verbatim>\<open>undefined\<close> and \<^verbatim>\<open>0\<close> are falsy.\<close>

definition js_or :: "int option \<Rightarrow> int \<Rightarrow> int" where
  "js_or x d = (case x of None \<Rightarrow> d | Some v \<Rightarrow> if v = 0 then d else v)"

definition new_RequestManager :: "options \<Rightarrow> request_manager" where
  "new_RequestManager opts =
     \<lparr>cacheDuration = js_or (opt_duration opts) (10 * 60 * 1000),
      maxSize = js_or (opt_maxSize opts) 1000,
      dataCache = [],
      pendingRequests = []\<rparr>"

definition getFromDataCache :: "request_manager \<Rightarrow> int \<Rightarrow> string \<Rightarrow> json \<times> request_manager" where
  "getFromDataCache this now key =
     (case map_of (dataCache this) key of
        None \<Rightarrow> (JNull, this)
      | Some item \<Rightarrow>
          if now > expiry item
          then (JNull, this\<lparr>dataCache := Map_delete (dataCache this) key\<rparr>)
          else (data item,
                this\<lparr>dataCache := Map_set (Map_delete (dataCache this) key) key item\<rparr>))"

definition setToDataCache :: "request_manager \<Rightarrow> int \<Rightarrow> string \<Rightarrow> json \<Rightarrow> request_manager" where
  "setToDataCache this now key d =
     (let cache1 = (if int (length (dataCache this)) \<ge> maxSize this
                    then Map_delete_first (dataCache this) else dataCache this)
      in this\<lparr>dataCache := Map_set cache1 key \<lparr>data = d, expiry = now + cacheDuration this\<rparr>\<rparr>)"

text \<open>
  \<^verbatim>\<open>fetch(key, fetcherFn)\<close>. The body has no \<^verbatim>\<open>await\<close>: it runs to its \<^verbatim>\<open>return\<close> in
  the call. It leaves by one of three paths, which the second variant logs as
  Cache Hit, Coalescing and Network; \<open>p\<close> is the handle of the promise that
  \<^verbatim>\<open>fetcherFn()\<close> would return, used on the third path only.
\<close>

datatype fetch_path = CacheHit json | Coalescing nat | Network nat

definition fetch :: "request_manager \<Rightarrow> int \<Rightarrow> string \<Rightarrow> nat \<Rightarrow> fetch_path \<times> request_manager" where
  "fetch this now key p =
     (case getFromDataCache this now key of
        (cached, this1) \<Rightarrow>
          if truthy cached then (CacheHit cached, this1)
          else (case map_of (pendingRequests this1) key of
                  Some q \<Rightarrow> (Coalescing q, this1)
                | None \<Rightarrow>
                    (Network p,
                     this1\<lparr>pendingRequests := Map_set (pendingRequests this1) key p\<rparr>)))"

text \<open>
  The reactions chained on the producer's promise: \<^verbatim>\<open>.then\<close> stores the data when the
  producer fulfils and is skipped when it rejects (\<^const>\<open>Inl\<close> carries the error
  message), \<^verbatim>\<open>.finally\<close> runs in both cases.
\<close>

definition onFinally :: "request_manager \<Rightarrow> string \<Rightarrow> request_manager" where
  "onFinally this key = this\<lparr>pendingRequests := Map_delete (pendingRequests this) key\<rparr>"

definition settle :: "request_manager \<Rightarrow> int \<Rightarrow> string \<Rightarrow> string + json \<Rightarrow> request_manager" where
  "settle this now key outcome =
     onFinally (case outcome of Inr d \<Rightarrow> setToDataCache this now key d | Inl err \<Rightarrow> this) key"

section \<open>Callers, producers and the order of events\<close>

text \<open>
  JavaScript runs one task at a time and to completion. The manager is entered in two
  ways only: a request handler calls \<^verbatim>\<open>manager.fetch\<close>, whose body runs without
  suspension, and a producer's promise settles, after which its \<^verbatim>\<open>.then\<close> and
  \<^verbatim>\<open>.finally\<close> reactions run and the callers awaiting the promise are resumed with its
  outcome. An execution is therefore a list of such events, in any order and number.

  Besides the manager, the state records what the claims observe: every producer
  invocation (its handle and key), the handles that have settled, which caller awaits
  which handle, and what each caller has received.
\<close>

record world =
  rm :: request_manager
  nextHandle :: nat
  producers :: "(nat \<times> string) list"
  settledHandles :: "nat list"
  waiting :: "(nat \<times> nat) list"
  delivered :: "(nat \<times> (string + json)) list"

datatype event =
    Request nat string int
  | Settled nat "string + json" int

definition init :: "options \<Rightarrow> world" where
  "init opts =
     \<lparr>rm = new_RequestManager opts, nextHandle = 0, producers = [], settledHandles = [],
      waiting = [], delivered = []\<rparr>"

text \<open>
  \<open>Request c key now\<close>: caller \<open>c\<close> calls \<^verbatim>\<open>fetch(key, fetcherFn)\<close> at time \<open>now\<close>. On the
  Network path the producer is invoked, which the log \<^const>\<open>producers\<close> records.

  \<open>Settled h outcome now\<close>: the producer with handle \<open>h\<close> settles; a promise settles
  once, so the event does nothing for a handle that never started or has settled. The
  key is the one of the call that created the promise.
\<close>

fun step :: "world \<Rightarrow> event \<Rightarrow> world" where
  "step w (Request c key now) =
     (case fetch (rm w) now key (nextHandle w) of
        (CacheHit v, m) \<Rightarrow> w\<lparr>rm := m, delivered := delivered w @ [(c, Inr v)]\<rparr>
      | (Coalescing q, m) \<Rightarrow> w\<lparr>rm := m, waiting := waiting w @ [(c, q)]\<rparr>
      | (Network p, m) \<Rightarrow>
          w\<lparr>rm := m, nextHandle := Suc p, producers := producers w @ [(p, key)],
            waiting := waiting w @ [(c, p)]\<rparr>)"
| "step w (Settled h outcome now) =
     (case map_of (producers w) h of
        None \<Rightarrow> w
      | Some key \<Rightarrow>
          if h \<in> set (settledHandles w) then w
          else w\<lparr>rm := settle (rm w) now key outcome,
                 settledHandles := h # settledHandles w,
                 waiting := filter (\<lambda>(c, q). q \<noteq> h) (waiting w),
                 delivered := delivered w @
                   map (\<lambda>(c, q). (c, outcome)) (filter (\<lambda>(c, q). q = h) (waiting w))\<rparr>)"

definition run :: "world \<Rightarrow> event list \<Rightarrow> world" where
  "run w es = foldl step w es"

text \<open>The producers that have been invoked and have not settled.\<close>

definition running :: "world \<Rightarrow> nat \<Rightarrow> string \<Rightarrow> bool" where
  "running w h key = ((h, key) \<in> set (producers w) \<and> h \<notin> set (settledHandles w))"

text \<open>A key has a producer in flight when one of its invocations has not settled.\<close>

definition in_flight :: "world \<Rightarrow> string \<Rightarrow> bool" where
  "in_flight w key =
     list_ex (\<lambda>(h, k). k = key \<and> h \<notin> set (settledHandles w)) (producers w)"

text \<open>The handles of the producer invocations for a key, and the callers awaiting a handle.\<close>

definition invocations :: "world \<Rightarrow> string \<Rightarrow> nat list" where
  "invocations w key = map fst (filter (\<lambda>(h, k). k = key) (producers w))"

definition waiters :: "world \<Rightarrow> nat \<Rightarrow> nat list" where
  "waiters w h = map fst (filter (\<lambda>(c, q). q = h) (waiting w))"

text \<open>The callers that request a key in a list of events.\<close>

fun callers_of :: "string \<Rightarrow> event list \<Rightarrow> nat list" where
  "callers_of key [] = []"
| "callers_of key (Request c k now # es) =
     (if k = key then c # callers_of key es else callers_of key es)"
| "callers_of key (Settled h outcome now # es) = callers_of key es"

fun settles :: "nat \<Rightarrow> event \<Rightarrow> bool" where
  "settles h (Request c k now) = False"
| "settles h (Settled h' outcome now) = (h' = h)"

text \<open>
  What holds in every state that an execution reaches: an in-flight entry stands for
  exactly one running producer, handles are fresh, callers await running producers
  only, and a key with a producer in flight has no truthy value in the cache.
\<close>

definition consistent :: "world \<Rightarrow> bool" where
  "consistent w =
     ((\<forall>key h. map_of (pendingRequests (rm w)) key = Some h \<longleftrightarrow> running w h key) \<and>
      (\<forall>h key. (h, key) \<in> set (producers w) \<longrightarrow> h < nextHandle w) \<and>
      distinct (map fst (producers w)) \<and>
      (\<forall>h. h \<in> set (settledHandles w) \<longrightarrow> h < nextHandle w) \<and>
      distinct (map fst (pendingRequests (rm w))) \<and>
      (\<forall>c h. (c, h) \<in> set (waiting w) \<longrightarrow> (\<exists>key. running w h key)) \<and>
      (\<forall>key h item. map_of (pendingRequests (rm w)) key = Some h \<longrightarrow>
          map_of (dataCache (rm w)) key = Some item \<longrightarrow> \<not> truthy (data item)))"

text \<open>
  Storing a list of results one after the other, with no read in between: each element
  is the time of the store, the key and the data. \<open>stored\<close> is the pair that a store
  puts into the Map.
\<close>

definition insertAll :: "request_manager \<Rightarrow> (int \<times> string \<times> json) list \<Rightarrow> request_manager" where
  "insertAll this xs = foldl (\<lambda>m (now, key, d). setToDataCache m now key d) this xs"


section \<open>Facts about the Map operations\<close>

lemma map_of_Map_set: "map_of (Map_set m k v) k' = (if k' = k then Some v else map_of m k')"
  by (simp add: Map_set_def update_conv')

lemma map_of_Map_delete: "map_of (Map_delete m k) k' = (if k' = k then None else map_of m k')"
  by (simp add: Map_delete_def delete_conv')

lemma Map_delete_notin: "k \<notin> fst ` set (Map_delete m k)"
  by (simp add: Map_delete_def delete_notin_dom)

lemma Map_set_fresh: "k \<notin> fst ` set m \<Longrightarrow> Map_set m k v = m @ [(k, v)]"
  unfolding Map_set_def by (induction m) auto

lemma Map_set_after_delete: "Map_set (Map_delete m k) k v = Map_delete m k @ [(k, v)]"
  by (rule Map_set_fresh) (rule Map_delete_notin)

lemma map_of_touch:
  "map_of m k = Some v \<Longrightarrow> map_of (Map_delete m k @ [(k, v)]) = map_of m"
  by (rule ext) (simp add: map_of_append map_add_def map_of_Map_delete split: option.splits)

lemma filter_touch:
  "filter (\<lambda>(k', _). k' \<noteq> k) (Map_delete m k @ [(k, v)]) = filter (\<lambda>(k', _). k' \<noteq> k) m"
  unfolding Map_delete_def AList.delete_eq by (induction m) auto

lemma length_Map_delete_less: "map_of m k = Some v \<Longrightarrow> length (Map_delete m k) < length m"
  unfolding Map_delete_def AList.delete_eq
  by (induction m) (auto simp: less_Suc_eq_le split: if_splits)



lemma Map_delete_first_distinct:
  "distinct (map fst m) \<Longrightarrow> Map_delete_first m = tl m"
  by (cases m) (force simp: Map_delete_first_def Map_delete_def AList.delete_eq intro!: filter_True)+

section \<open>Reading and writing the data cache\<close>

lemma get_hit:
  "map_of (dataCache this) key = Some item \<Longrightarrow> now \<le> expiry item \<Longrightarrow>
   getFromDataCache this now key =
     (data item, this\<lparr>dataCache := Map_delete (dataCache this) key @ [(key, item)]\<rparr>)"
  by (simp add: getFromDataCache_def Map_set_after_delete)

lemma get_expired:
  "map_of (dataCache this) key = Some item \<Longrightarrow> expiry item < now \<Longrightarrow>
   getFromDataCache this now key =
     (JNull, this\<lparr>dataCache := Map_delete (dataCache this) key\<rparr>)"
  by (simp add: getFromDataCache_def)

lemma get_absent:
  "map_of (dataCache this) key = None \<Longrightarrow> getFromDataCache this now key = (JNull, this)"
  by (simp add: getFromDataCache_def)

text \<open>\<^verbatim>\<open>getCache\<close> is \<^verbatim>\<open>_getFromDataCache\<close> on the module-level cache.\<close>

lemma getCache_eq:
  "getCache (dataCache this) now key =
     (fst (getFromDataCache this now key), dataCache (snd (getFromDataCache this now key)))"
  by (simp add: getCache_def getFromDataCache_def split: option.splits)

lemma map_of_set_entry:
  "map_of (dataCache (setToDataCache this now key d)) key =
     Some \<lparr>data = d, expiry = now + cacheDuration this\<rparr>"
  by (simp add: setToDataCache_def Let_def map_of_Map_set)

subsection \<open>Expiry\<close>

text \<open>
  Claim C5 says that a get treats an entry with \<open>expiresAt \<le> now\<close> as absent, so that a
  key stored with time-to-live \<open>T\<close> is a miss at elapsed time exactly \<open>T\<close>. The code
  tests \<^verbatim>\<open>Date.now() > item.expiry\<close>: at exactly \<open>T\<close> the entry is still returned. With
  the default duration of 600000 ms, a value stored at time 0 is returned at time 600000.
\<close>

theorem get_at_expiry_is_hit:
  "fst (getFromDataCache
          (setToDataCache (new_RequestManager \<lparr>opt_duration = None, opt_maxSize = None\<rparr>)
             0 ''k'' (JNum 1))
          (0 + 600000) ''k'') = JNum 1"
  by (simp add: getFromDataCache_def setToDataCache_def new_RequestManager_def js_or_def
      Map_set_def Map_delete_def Map_delete_first_def)

text \<open>
  Claim C5, amended: a get treats an entry as absent, and removes it, exactly when
  \<open>now > expiresAt\<close>; when \<open>expiresAt \<ge> now\<close>, the boundary included, it returns the
  stored value and moves the entry to the most-recently-used end. So a key stored with
  time-to-live \<open>T\<close> is returned for every elapsed time up to and including \<open>T\<close> and is a
  miss after it.
\<close>

theorem get_expiry_boundary:
  "(map_of (dataCache this) key = Some item \<longrightarrow>
     (expiry item < now \<longrightarrow>
        getFromDataCache this now key =
          (JNull, this\<lparr>dataCache := Map_delete (dataCache this) key\<rparr>)) \<and>
     (now \<le> expiry item \<longrightarrow>
        fst (getFromDataCache this now key) = data item \<and>
        dataCache (snd (getFromDataCache this now key)) =
          Map_delete (dataCache this) key @ [(key, item)] \<and>
        last (map fst (dataCache (snd (getFromDataCache this now key)))) = key)) \<and>
   (map_of (dataCache this) key = None \<longrightarrow> getFromDataCache this now key = (JNull, this)) \<and>
   fst (getFromDataCache (setToDataCache this t0 key d) (t0 + elapsed) key) =
     (if elapsed \<le> cacheDuration this then d else JNull)"
proof -
  have "fst (getFromDataCache (setToDataCache this t0 key d) (t0 + elapsed) key) =
     (if elapsed \<le> cacheDuration this then d else JNull)"
    using map_of_set_entry [of this t0 key d] by (simp add: getFromDataCache_def)
  then show ?thesis
    by (simp add: get_hit get_expired get_absent)
qed

theorem get_expiry_boundary_witness:
  "getFromDataCache
     \<lparr>cacheDuration = 1000, maxSize = 2,
      dataCache = [(''a'', \<lparr>data = JNum 1, expiry = 5\<rparr>), (''b'', \<lparr>data = JNum 2, expiry = 9\<rparr>)],
      pendingRequests = []\<rparr> 6 ''a''
   = (JNull,
      \<lparr>cacheDuration = 1000, maxSize = 2,
       dataCache = [(''b'', \<lparr>data = JNum 2, expiry = 9\<rparr>)], pendingRequests = []\<rparr>) \<and>
   fst (getFromDataCache
     \<lparr>cacheDuration = 1000, maxSize = 2,
      dataCache = [(''a'', \<lparr>data = JNum 1, expiry = 5\<rparr>), (''b'', \<lparr>data = JNum 2, expiry = 9\<rparr>)],
      pendingRequests = []\<rparr> 5 ''a'') = JNum 1 \<and>
   getFromDataCache
     \<lparr>cacheDuration = 1000, maxSize = 2,
      dataCache = [(''a'', \<lparr>data = JNum 1, expiry = 5\<rparr>), (''b'', \<lparr>data = JNum 2, expiry = 9\<rparr>)],
      pendingRequests = []\<rparr> 5 ''c''
   = (JNull,
      \<lparr>cacheDuration = 1000, maxSize = 2,
       dataCache = [(''a'', \<lparr>data = JNum 1, expiry = 5\<rparr>), (''b'', \<lparr>data = JNum 2, expiry = 9\<rparr>)],
       pendingRequests = []\<rparr>)"
  using
    get_expiry_boundary [of
      "\<lparr>cacheDuration = 1000, maxSize = 2,
        dataCache = [(''a'', \<lparr>data = JNum 1, expiry = 5\<rparr>), (''b'', \<lparr>data = JNum 2, expiry = 9\<rparr>)],
        pendingRequests = []\<rparr>" "''a''" "\<lparr>data = JNum 1, expiry = 5\<rparr>" 6]
    get_expiry_boundary [of
      "\<lparr>cacheDuration = 1000, maxSize = 2,
        dataCache = [(''a'', \<lparr>data = JNum 1, expiry = 5\<rparr>), (''b'', \<lparr>data = JNum 2, expiry = 9\<rparr>)],
        pendingRequests = []\<rparr>" "''a''" "\<lparr>data = JNum 1, expiry = 5\<rparr>" 5]
    get_expiry_boundary [of
      "\<lparr>cacheDuration = 1000, maxSize = 2,
        dataCache = [(''a'', \<lparr>data = JNum 1, expiry = 5\<rparr>), (''b'', \<lparr>data = JNum 2, expiry = 9\<rparr>)],
        pendingRequests = []\<rparr>" "''c''" _ 5]
  by (simp add: Map_delete_def)

subsection \<open>What a hit leaves unchanged\<close>

text \<open>
  Claim C10: a get that hits changes only the recency position of the entry. The entry
  put back is the stored one, data and expiry as the last set wrote them, so the
  time-to-live is not extended; every key maps to what it mapped to before; the other
  entries keep their relative order and the entry read is last; nothing else in the
  manager changes.
\<close>

theorem get_hit_frame:
  "map_of (dataCache this) key = Some item \<Longrightarrow> now \<le> expiry item \<Longrightarrow>
   (case getFromDataCache this now key of
      (v, this') \<Rightarrow>
        v = data item \<and>
        map_of (dataCache this') = map_of (dataCache this) \<and>
        filter (\<lambda>(k, _). k \<noteq> key) (dataCache this') =
          filter (\<lambda>(k, _). k \<noteq> key) (dataCache this) \<and>
        last (dataCache this') = (key, item) \<and>
        pendingRequests this' = pendingRequests this \<and>
        cacheDuration this' = cacheDuration this \<and> maxSize this' = maxSize this)"
proof -
  assume present: "map_of (dataCache this) key = Some item" and fresh: "now \<le> expiry item"
  let ?c = "Map_delete (dataCache this) key @ [(key, item)]"
  have res: "getFromDataCache this now key = (data item, this\<lparr>dataCache := ?c\<rparr>)"
    using present fresh by (rule get_hit)
  have m: "map_of ?c = map_of (dataCache this)"
    using present by (rule map_of_touch)
  have f: "filter (\<lambda>(k, _). k \<noteq> key) ?c = filter (\<lambda>(k, _). k \<noteq> key) (dataCache this)"
    by (rule filter_touch)
  have l: "last ?c = (key, item)"
    by simp
  show ?thesis
    unfolding res using m f l by simp
qed

theorem get_hit_frame_witness:
  "getFromDataCache
     \<lparr>cacheDuration = 1000, maxSize = 2,
      dataCache = [(''a'', \<lparr>data = JNum 1, expiry = 5\<rparr>), (''b'', \<lparr>data = JNum 2, expiry = 9\<rparr>)],
      pendingRequests = []\<rparr> 3 ''a''
   = (JNum 1,
      \<lparr>cacheDuration = 1000, maxSize = 2,
       dataCache = [(''b'', \<lparr>data = JNum 2, expiry = 9\<rparr>), (''a'', \<lparr>data = JNum 1, expiry = 5\<rparr>)],
       pendingRequests = []\<rparr>) \<and>
   map_of [(''b'', \<lparr>data = JNum 2, expiry = 9\<rparr>), (''a'', \<lparr>data = JNum 1, expiry = 5\<rparr>)]
   = map_of [(''a'', \<lparr>data = JNum 1, expiry = 5\<rparr>), (''b'', \<lparr>data = JNum 2, expiry = 9\<rparr>)]"
proof -
  let ?m0 = "\<lparr>cacheDuration = 1000, maxSize = 2,
      dataCache = [(''a'', \<lparr>data = JNum 1, expiry = 5\<rparr>), (''b'', \<lparr>data = JNum 2, expiry = 9\<rparr>)],
      pendingRequests = []\<rparr>"
  have r: "getFromDataCache ?m0 3 ''a''
     = (JNum 1, ?m0\<lparr>dataCache :=
          [(''b'', \<lparr>data = JNum 2, expiry = 9\<rparr>), (''a'', \<lparr>data = JNum 1, expiry = 5\<rparr>)]\<rparr>)"
    by (simp add: getFromDataCache_def Map_delete_def Map_set_def)
  have "map_of (dataCache ?m0) ''a'' = Some \<lparr>data = JNum 1, expiry = 5\<rparr>"
    by simp
  moreover have "(3::int) \<le> expiry \<lparr>data = JNum 1, expiry = 5\<rparr>"
    by simp
  ultimately show ?thesis
    using get_hit_frame [of ?m0 "''a''" "\<lparr>data = JNum 1, expiry = 5\<rparr>" 3]
    unfolding r by simp
qed

subsection \<open>Falsy values\<close>

text \<open>
  Claim C9: the fast return of \<^verbatim>\<open>fetch\<close> tests the looked-up value for truthiness, not
  the key for presence. When the entry stored for the key holds a falsy value, whatever
  its expiry, \<^verbatim>\<open>fetch\<close> takes the coalescing path if a producer is in flight and invokes
  the producer otherwise; and whenever \<^verbatim>\<open>fetch\<close> does return from the cache, the value is
  truthy and is the data of an entry that has not expired.
\<close>

theorem fetch_falsy_bypasses_cache:
  "(map_of (dataCache this) key = Some item \<and> \<not> truthy (data item) \<longrightarrow>
      fst (fetch this now key p) =
        (case map_of (pendingRequests this) key of
           Some q \<Rightarrow> Coalescing q | None \<Rightarrow> Network p)) \<and>
   (fst (fetch this now key p) = CacheHit v \<longrightarrow>
      truthy v \<and> (\<exists>item. map_of (dataCache this) key = Some item \<and> data item = v
         \<and> now \<le> expiry item))"
  by (auto simp: fetch_def getFromDataCache_def split: option.splits if_splits)

theorem fetch_falsy_bypasses_cache_witness:
  "fst (fetch \<lparr>cacheDuration = 1000, maxSize = 2,
               dataCache = [(''a'', \<lparr>data = JNum 0, expiry = 5\<rparr>)],
               pendingRequests = []\<rparr> 3 ''a'' 7) = Network 7 \<and>
   fst (fetch \<lparr>cacheDuration = 1000, maxSize = 2,
               dataCache = [(''a'', \<lparr>data = JStr ''x'', expiry = 5\<rparr>)],
               pendingRequests = []\<rparr> 3 ''a'' 7) = CacheHit (JStr ''x'') \<and>
   truthy (JStr ''x'')"
proof -
  have hit: "fst (fetch \<lparr>cacheDuration = 1000, maxSize = 2,
               dataCache = [(''a'', \<lparr>data = JStr ''x'', expiry = 5\<rparr>)],
               pendingRequests = []\<rparr> 3 ''a'' 7) = CacheHit (JStr ''x'')"
    by (simp add: fetch_def getFromDataCache_def Map_delete_def Map_set_def)
  show ?thesis
    using
      fetch_falsy_bypasses_cache [of
        "\<lparr>cacheDuration = 1000, maxSize = 2,
          dataCache = [(''a'', \<lparr>data = JNum 0, expiry = 5\<rparr>)],
          pendingRequests = []\<rparr>" "''a''" "\<lparr>data = JNum 0, expiry = 5\<rparr>" 3 7]
      fetch_falsy_bypasses_cache [of
        "\<lparr>cacheDuration = 1000, maxSize = 2,
          dataCache = [(''a'', \<lparr>data = JStr ''x'', expiry = 5\<rparr>)],
          pendingRequests = []\<rparr>" "''a''" _ 3 7 "JStr ''x''"]
      hit
    by simp
qed

section \<open>Capacity\<close>



lemma get_fields [simp]:
  "maxSize (snd (getFromDataCache this now key)) = maxSize this"
  "cacheDuration (snd (getFromDataCache this now key)) = cacheDuration this"
  "pendingRequests (snd (getFromDataCache this now key)) = pendingRequests this"
  by (simp_all add: getFromDataCache_def split: option.splits)

lemma set_fields [simp]:
  "maxSize (setToDataCache this now key d) = maxSize this"
  "cacheDuration (setToDataCache this now key d) = cacheDuration this"
  "pendingRequests (setToDataCache this now key d) = pendingRequests this"
  by (simp_all add: setToDataCache_def Let_def)

lemma fetch_sel:
  "fetch this now key p =
     (let cached = fst (getFromDataCache this now key);
          this1 = snd (getFromDataCache this now key)
      in if truthy cached then (CacheHit cached, this1)
         else (case map_of (pendingRequests this) key of
                 Some q \<Rightarrow> (Coalescing q, this1)
               | None \<Rightarrow>
                   (Network p, this1\<lparr>pendingRequests := Map_set (pendingRequests this) key p\<rparr>)))"
  by (simp add: fetch_def split: prod.splits) (metis get_fields(3) snd_conv)

lemma fetch_fields [simp]:
  "maxSize (snd (fetch this now key p)) = maxSize this"
  "cacheDuration (snd (fetch this now key p)) = cacheDuration this"
  "dataCache (snd (fetch this now key p)) = dataCache (snd (getFromDataCache this now key))"
  by (simp_all add: fetch_sel Let_def split: option.splits)

lemma settle_fields [simp]:
  "maxSize (settle this now key outcome) = maxSize this"
  "cacheDuration (settle this now key outcome) = cacheDuration this"
  "dataCache (settle this now key outcome) =
     (case outcome of Inr d \<Rightarrow> dataCache (setToDataCache this now key d)
        | Inl err \<Rightarrow> dataCache this)"
  "pendingRequests (settle this now key outcome) = Map_delete (pendingRequests this) key"
  by (simp_all add: settle_def onFinally_def split: sum.splits)







lemma insertAll_fields [simp]:
  "maxSize (insertAll this xs) = maxSize this"
  "cacheDuration (insertAll this xs) = cacheDuration this"
  by (induction xs rule: rev_induct) (auto simp: insertAll_def)





section \<open>Recency\<close>

text \<open>
  Claim C6: with capacity 2, after storing keys \<open>A\<close> then \<open>B\<close>, reading \<open>A\<close> before it
  expires and storing a new key \<open>C\<close>, the read returned the value of \<open>A\<close> and the cache
  holds exactly \<open>A\<close> and \<open>C\<close>: \<open>B\<close> was evicted. At the level of the manager, with
  capacity 2 and a duration of 1000 ms, the calls fetch a (producer resolves with 1),
  fetch b (2), fetch a (answered from the cache) and fetch c (3) leave a with 1 and c
  with 3 in the cache, and three producer invocations.
\<close>

theorem lru_touch_evicts_untouched:
  assumes "A \<noteq> B" "A \<noteq> C" "B \<noteq> C" "dataCache this = []" "maxSize this = 2"
    "tg \<le> tA + cacheDuration this"
  shows
    "fst (getFromDataCache (setToDataCache (setToDataCache this tA A a) tB B b) tg A) = a \<and>
     dataCache (setToDataCache
        (snd (getFromDataCache (setToDataCache (setToDataCache this tA A a) tB B b) tg A))
        tC C c) =
       [(A, \<lparr>data = a, expiry = tA + cacheDuration this\<rparr>),
        (C, \<lparr>data = c, expiry = tC + cacheDuration this\<rparr>)] \<and>
     run (init \<lparr>opt_duration = Some 1000, opt_maxSize = Some 2\<rparr>)
       [Request 1 ''a'' 0, Settled 0 (Inr (JNum 1)) 10,
        Request 2 ''b'' 20, Settled 1 (Inr (JNum 2)) 30,
        Request 3 ''a'' 40,
        Request 4 ''c'' 50, Settled 2 (Inr (JNum 3)) 60] =
     \<lparr>rm = \<lparr>cacheDuration = 1000, maxSize = 2,
            dataCache =
              [(''a'', \<lparr>data = JNum 1, expiry = 1010\<rparr>),
               (''c'', \<lparr>data = JNum 3, expiry = 1060\<rparr>)],
            pendingRequests = []\<rparr>,
      nextHandle = 3, producers = [(0, ''a''), (1, ''b''), (2, ''c'')],
      settledHandles = [2, 1, 0], waiting = [],
      delivered =
        [(1, Inr (JNum 1)), (2, Inr (JNum 2)), (3, Inr (JNum 1)), (4, Inr (JNum 3))]\<rparr>"
proof -
  have cache_level:
    "fst (getFromDataCache (setToDataCache (setToDataCache this tA A a) tB B b) tg A) = a \<and>
     dataCache (setToDataCache
        (snd (getFromDataCache (setToDataCache (setToDataCache this tA A a) tB B b) tg A))
        tC C c) =
       [(A, \<lparr>data = a, expiry = tA + cacheDuration this\<rparr>),
        (C, \<lparr>data = c, expiry = tC + cacheDuration this\<rparr>)]"
    using assms
    by (simp add: setToDataCache_def getFromDataCache_def Map_set_def Map_delete_def
        Map_delete_first_def Let_def)
  have manager_level:
    "run (init \<lparr>opt_duration = Some 1000, opt_maxSize = Some 2\<rparr>)
       [Request 1 ''a'' 0, Settled 0 (Inr (JNum 1)) 10,
        Request 2 ''b'' 20, Settled 1 (Inr (JNum 2)) 30,
        Request 3 ''a'' 40,
        Request 4 ''c'' 50, Settled 2 (Inr (JNum 3)) 60] =
     \<lparr>rm = \<lparr>cacheDuration = 1000, maxSize = 2,
            dataCache =
              [(''a'', \<lparr>data = JNum 1, expiry = 1010\<rparr>),
               (''c'', \<lparr>data = JNum 3, expiry = 1060\<rparr>)],
            pendingRequests = []\<rparr>,
      nextHandle = 3, producers = [(0, ''a''), (1, ''b''), (2, ''c'')],
      settledHandles = [2, 1, 0], waiting = [],
      delivered =
        [(1, Inr (JNum 1)), (2, Inr (JNum 2)), (3, Inr (JNum 1)), (4, Inr (JNum 3))]\<rparr>"
    by (simp add: run_def init_def new_RequestManager_def js_or_def fetch_def settle_def onFinally_def
      setToDataCache_def getFromDataCache_def Map_set_def Map_delete_def
      Map_delete_first_def Let_def)
  from cache_level manager_level show ?thesis by simp
qed

theorem lru_touch_evicts_untouched_witness:
  "dataCache (setToDataCache
      (snd (getFromDataCache
         (setToDataCache
            (setToDataCache
               \<lparr>cacheDuration = 1000, maxSize = 2, dataCache = [], pendingRequests = []\<rparr>
               0 ''A'' (JNum 1))
            1 ''B'' (JNum 2))
         2 ''A''))
      3 ''C'' (JNum 3)) =
     [(''A'', \<lparr>data = JNum 1, expiry = 1000\<rparr>), (''C'', \<lparr>data = JNum 3, expiry = 1003\<rparr>)]"
  using lru_touch_evicts_untouched [of "''A''" "''B''" "''C''"
      "\<lparr>cacheDuration = 1000, maxSize = 2, dataCache = [], pendingRequests = []\<rparr>"
      2 0 "JNum 1" 1 "JNum 2" 3 "JNum 3"]
  by simp

section \<open>Storing under a key that is present\<close>

text \<open>
  \<^verbatim>\<open>setCache\<close> deletes a key that is present before it looks at the size, so that
  replacing an entry moves it to the most recent end and evicts nothing; the oldest
  entry goes only when the key is new and the cache is full.
\<close>

lemma setCache_existing_key:
  assumes "distinct (map fst cache)" "Map_has cache key" "int (length cache) \<le> MAX_CACHE_SIZE"
  shows "setCache cache now key d =
     Map_delete cache key @ [(key, \<lparr>data = d, expiry = now + CACHE_DURATION\<rparr>)]"
proof -
  from assms(2) obtain v where "map_of cache key = Some v"
    by (auto simp: Map_has_def)
  then have "length (Map_delete cache key) < length cache"
    by (rule length_Map_delete_less)
  with assms(3) have "\<not> int (length (Map_delete cache key)) \<ge> MAX_CACHE_SIZE"
    by simp
  with assms(2) show ?thesis
    by (simp add: setCache_def Map_set_after_delete)
qed

lemma setCache_new_key:
  assumes "distinct (map fst cache)" "\<not> Map_has cache key"
  shows "setCache cache now key d =
     (if int (length cache) \<ge> MAX_CACHE_SIZE then tl cache else cache)
       @ [(key, \<lparr>data = d, expiry = now + CACHE_DURATION\<rparr>)]"
proof -
  have n: "key \<notin> fst ` set cache"
    using assms(2) by (simp add: Map_has_def map_of_eq_None_iff)
  then have "key \<notin> fst ` set (tl cache)"
    by (cases cache) auto
  with n assms show ?thesis
    by (simp add: setCache_def Map_delete_first_distinct Map_set_fresh)
qed


text \<open>
  Claim C4 asks the same of every set. \<^verbatim>\<open>_setToDataCache\<close> has no such deletion: it
  compares the size first, and \<^verbatim>\<open>Map.set\<close> leaves a key that is present where it
  stands. With capacity 2 and keys a, b stored, storing b again evicts a; below
  capacity, storing a again leaves a in the oldest position. The manager reaches the
  first state through \<^verbatim>\<open>fetch\<close> when the value stored for b is falsy, since then the
  second fetch of b invokes the producer although the key is in the cache.
\<close>

theorem setToDataCache_existing_key_evicts:
  "dataCache (setToDataCache
      \<lparr>cacheDuration = 1000, maxSize = 2,
       dataCache = [(''a'', \<lparr>data = JNum 1, expiry = 1010\<rparr>),
                    (''b'', \<lparr>data = JNum 0, expiry = 1030\<rparr>)],
       pendingRequests = [(''b'', 2)]\<rparr> 60 ''b'' (JNum 0)) =
     [(''b'', \<lparr>data = JNum 0, expiry = 1060\<rparr>)] \<and>
   dataCache (setToDataCache
      \<lparr>cacheDuration = 1000, maxSize = 3,
       dataCache = [(''a'', \<lparr>data = JNum 0, expiry = 1010\<rparr>),
                    (''b'', \<lparr>data = JNum 2, expiry = 1030\<rparr>)],
       pendingRequests = [(''a'', 2)]\<rparr> 60 ''a'' (JNum 0)) =
     [(''a'', \<lparr>data = JNum 0, expiry = 1060\<rparr>), (''b'', \<lparr>data = JNum 2, expiry = 1030\<rparr>)] \<and>
   dataCache (rm (run (init \<lparr>opt_duration = Some 1000, opt_maxSize = Some 2\<rparr>)
     [Request 1 ''a'' 0, Settled 0 (Inr (JNum 1)) 10,
      Request 2 ''b'' 20, Settled 1 (Inr (JNum 0)) 30,
      Request 3 ''b'' 40, Settled 2 (Inr (JNum 0)) 60])) =
     [(''b'', \<lparr>data = JNum 0, expiry = 1060\<rparr>)]"
  by (simp add: run_def init_def new_RequestManager_def js_or_def fetch_def settle_def onFinally_def
      setToDataCache_def getFromDataCache_def Map_set_def Map_delete_def
      Map_delete_first_def Let_def)

section \<open>Executions\<close>

subsection \<open>What a read and a store leave of the other entries\<close>

lemma get_map_of_Some:
  "map_of (dataCache (snd (getFromDataCache this now key))) k = Some item \<Longrightarrow>
   map_of (dataCache this) k = Some item"
  by (auto simp: getFromDataCache_def map_of_Map_set map_of_Map_delete
      split: option.splits if_splits)

lemma get_falsy_stays_falsy:
  "\<not> truthy (fst (getFromDataCache this now key)) \<Longrightarrow>
   map_of (dataCache (snd (getFromDataCache this now key))) key = Some item \<Longrightarrow>
   \<not> truthy (data item)"
  by (auto simp: getFromDataCache_def map_of_Map_set map_of_Map_delete
      split: option.splits if_splits)

lemma get_of_falsy:
  "(\<And>item. map_of (dataCache this) key = Some item \<Longrightarrow> \<not> truthy (data item)) \<Longrightarrow>
   \<not> truthy (fst (getFromDataCache this now key))"
  by (auto simp: getFromDataCache_def split: option.splits if_splits)

lemma map_of_Map_delete_first_Some:
  "map_of (Map_delete_first m) k = Some v \<Longrightarrow> map_of m k = Some v"
  by (cases m) (auto simp: Map_delete_first_def map_of_Map_delete split: if_splits)

lemma set_map_of_other:
  "k \<noteq> key \<Longrightarrow> map_of (dataCache (setToDataCache this now key d)) k = Some item \<Longrightarrow>
   map_of (dataCache this) k = Some item"
  by (auto simp: setToDataCache_def Let_def map_of_Map_set
      dest: map_of_Map_delete_first_Some split: if_splits)

lemma settle_map_of_other:
  "k \<noteq> key \<Longrightarrow> map_of (dataCache (settle this now key outcome)) k = Some item \<Longrightarrow>
   map_of (dataCache this) k = Some item"
  by (cases outcome) (auto dest: set_map_of_other)

lemma distinct_Map_set: "distinct (map fst m) \<Longrightarrow> distinct (map fst (Map_set m k v))"
  by (simp add: Map_set_def distinct_update)

lemma distinct_Map_delete: "distinct (map fst m) \<Longrightarrow> distinct (map fst (Map_delete m k))"
  by (simp add: Map_delete_def distinct_delete)

subsection \<open>The paths of a request and the settlement, as updates of the state\<close>

lemma step_hit:
  "truthy (fst (getFromDataCache (rm w) now key)) \<Longrightarrow>
   step w (Request c key now) =
     w\<lparr>rm := snd (getFromDataCache (rm w) now key),
       delivered := delivered w @ [(c, Inr (fst (getFromDataCache (rm w) now key)))]\<rparr>"
  by (simp add: fetch_sel Let_def)

lemma step_join:
  "\<not> truthy (fst (getFromDataCache (rm w) now key)) \<Longrightarrow>
   map_of (pendingRequests (rm w)) key = Some q \<Longrightarrow>
   step w (Request c key now) =
     w\<lparr>rm := snd (getFromDataCache (rm w) now key), waiting := waiting w @ [(c, q)]\<rparr>"
  by (simp add: fetch_sel Let_def)

lemma step_start:
  "\<not> truthy (fst (getFromDataCache (rm w) now key)) \<Longrightarrow>
   map_of (pendingRequests (rm w)) key = None \<Longrightarrow>
   step w (Request c key now) =
     w\<lparr>rm := (snd (getFromDataCache (rm w) now key))
             \<lparr>pendingRequests := Map_set (pendingRequests (rm w)) key (nextHandle w)\<rparr>,
       nextHandle := Suc (nextHandle w),
       producers := producers w @ [(nextHandle w, key)],
       waiting := waiting w @ [(c, nextHandle w)]\<rparr>"
  by (simp add: fetch_sel Let_def)

lemma step_settle:
  "map_of (producers w) h = Some key \<Longrightarrow> h \<notin> set (settledHandles w) \<Longrightarrow>
   step w (Settled h outcome now) =
     w\<lparr>rm := settle (rm w) now key outcome,
       settledHandles := h # settledHandles w,
       waiting := filter (\<lambda>(c, q). q \<noteq> h) (waiting w),
       delivered := delivered w @
         map (\<lambda>(c, q). (c, outcome)) (filter (\<lambda>(c, q). q = h) (waiting w))\<rparr>"
  by simp

lemma step_settle_noop:
  "\<not> (\<exists>key. running w h key) \<Longrightarrow> distinct (map fst (producers w)) \<Longrightarrow>
   step w (Settled h outcome now) = w"
  by (auto simp: running_def split: option.splits dest: map_of_SomeD)


text \<open>From here on an event is unfolded by the equations above only.\<close>

declare step.simps [simp del]

subsection \<open>The invariant\<close>

lemma running_producer:
  "distinct (map fst (producers w)) \<Longrightarrow> running w h key \<Longrightarrow>
   map_of (producers w) h = Some key \<and> h \<notin> set (settledHandles w)"
  by (simp add: running_def)

lemma running_unique_key:
  "distinct (map fst (producers w)) \<Longrightarrow> running w h k \<Longrightarrow> running w h k' \<Longrightarrow> k = k'"
  by (auto simp: running_def dest: eq_key_imp_eq_value)

lemma invD:
  assumes "consistent w"
  shows "map_of (pendingRequests (rm w)) k = Some h \<longleftrightarrow> running w h k"
    and "(h, k) \<in> set (producers w) \<Longrightarrow> h < nextHandle w"
    and "distinct (map fst (producers w))"
    and "h \<in> set (settledHandles w) \<Longrightarrow> h < nextHandle w"
    and "distinct (map fst (pendingRequests (rm w)))"
    and "(c, h) \<in> set (waiting w) \<Longrightarrow> \<exists>k. running w h k"
    and "map_of (pendingRequests (rm w)) k = Some h \<Longrightarrow>
          map_of (dataCache (rm w)) k = Some item \<Longrightarrow> \<not> truthy (data item)"
  using assms unfolding consistent_def by blast+

lemma invI:
  assumes "\<And>k h. map_of (pendingRequests (rm w)) k = Some h \<longleftrightarrow> running w h k"
    and "\<And>h k. (h, k) \<in> set (producers w) \<Longrightarrow> h < nextHandle w"
    and "distinct (map fst (producers w))"
    and "\<And>h. h \<in> set (settledHandles w) \<Longrightarrow> h < nextHandle w"
    and "distinct (map fst (pendingRequests (rm w)))"
    and "\<And>c h. (c, h) \<in> set (waiting w) \<Longrightarrow> \<exists>k. running w h k"
    and "\<And>k h item. map_of (pendingRequests (rm w)) k = Some h \<Longrightarrow>
          map_of (dataCache (rm w)) k = Some item \<Longrightarrow> \<not> truthy (data item)"
  shows "consistent w"
  using assms unfolding consistent_def by blast

lemma inv_step_Request:
  assumes "consistent w"
  shows "consistent (step w (Request c key now))"
proof -
  let ?g = "getFromDataCache (rm w) now key"
  let ?w = "step w (Request c key now)"
  note P = invD(1) [OF assms] and F = invD(2) [OF assms] and D = invD(3) [OF assms]
    and S = invD(4) [OF assms] and Q = invD(5) [OF assms] and W = invD(6) [OF assms]
    and T = invD(7) [OF assms]
  consider (hit) "truthy (fst ?g)"
    | (join) q where "\<not> truthy (fst ?g)" "map_of (pendingRequests (rm w)) key = Some q"
    | (start) "\<not> truthy (fst ?g)" "map_of (pendingRequests (rm w)) key = None"
    by (cases "map_of (pendingRequests (rm w)) key") auto
  then show ?thesis
  proof cases
    case hit
    note eq = step_hit [OF hit, of c]
    have f: "pendingRequests (rm ?w) = pendingRequests (rm w)" "producers ?w = producers w"
      "settledHandles ?w = settledHandles w" "nextHandle ?w = nextHandle w"
      "waiting ?w = waiting w" "dataCache (rm ?w) = dataCache (snd ?g)"
      unfolding eq by simp_all
    have r: "\<And>h k. running ?w h k = running w h k"
      by (simp add: running_def f)
    show ?thesis
    proof (rule invI)
      fix k h item
      assume "map_of (pendingRequests (rm ?w)) k = Some h" "map_of (dataCache (rm ?w)) k = Some item"
      then have "map_of (pendingRequests (rm w)) k = Some h" "map_of (dataCache (rm w)) k = Some item"
        unfolding f by (auto dest: get_map_of_Some)
      then show "\<not> truthy (data item)" by (rule T)
    qed (simp_all only: f r P F D S Q W)
  next
    case join
    note eq = step_join [OF join, of c]
    have f: "pendingRequests (rm ?w) = pendingRequests (rm w)" "producers ?w = producers w"
      "settledHandles ?w = settledHandles w" "nextHandle ?w = nextHandle w"
      "waiting ?w = waiting w @ [(c, q)]" "dataCache (rm ?w) = dataCache (snd ?g)"
      unfolding eq by simp_all
    have r: "\<And>h k. running ?w h k = running w h k"
      by (simp add: running_def f)
    have rq: "running w q key" using join(2) P by simp
    show ?thesis
    proof (rule invI)
      fix k h item
      assume "map_of (pendingRequests (rm ?w)) k = Some h" "map_of (dataCache (rm ?w)) k = Some item"
      then have "map_of (pendingRequests (rm w)) k = Some h" "map_of (dataCache (rm w)) k = Some item"
        unfolding f by (auto dest: get_map_of_Some)
      then show "\<not> truthy (data item)" by (rule T)
    next
      fix c' h assume "(c', h) \<in> set (waiting ?w)"
      then have "(c', h) \<in> set (waiting w) \<or> h = q" unfolding f by auto
      then show "\<exists>k. running ?w h k" unfolding r using W rq by blast
    qed (simp_all only: f r P F D S Q)
  next
    case start
    note eq = step_start [OF start, of c]
    let ?p = "nextHandle w"
    have f: "pendingRequests (rm ?w) = Map_set (pendingRequests (rm w)) key ?p"
      "producers ?w = producers w @ [(?p, key)]"
      "settledHandles ?w = settledHandles w" "nextHandle ?w = Suc ?p"
      "waiting ?w = waiting w @ [(c, ?p)]" "dataCache (rm ?w) = dataCache (snd ?g)"
      unfolding eq by simp_all
    have fresh: "?p \<notin> fst ` set (producers w)" "?p \<notin> set (settledHandles w)"
      using F [of "nextHandle w"] S [of "nextHandle w"] by auto
    have r: "\<And>h k. running ?w h k = (running w h k \<or> (h = ?p \<and> k = key))"
      using fresh by (auto simp: running_def f)
    have none: "\<And>h. \<not> running w h key" using start(2) P by (metis option.distinct(1))
    show ?thesis
    proof (rule invI)
      fix k h
      show "(map_of (pendingRequests (rm ?w)) k = Some h) = running ?w h k"
        unfolding r f using P [of k h] none [of h] by (auto simp: map_of_Map_set)
    next
      fix h k assume "(h, k) \<in> set (producers ?w)"
      then show "h < nextHandle ?w" unfolding f using F by (auto simp: less_Suc_eq)
    next
      show "distinct (map fst (producers ?w))" unfolding f using D fresh by simp
    next
      fix h assume "h \<in> set (settledHandles ?w)"
      then show "h < nextHandle ?w" unfolding f using S by (auto simp: less_Suc_eq)
    next
      show "distinct (map fst (pendingRequests (rm ?w)))"
        unfolding f using Q by (simp add: distinct_Map_set)
    next
      fix c' h assume "(c', h) \<in> set (waiting ?w)"
      then have "(c', h) \<in> set (waiting w) \<or> h = ?p" unfolding f by auto
      then show "\<exists>k. running ?w h k" unfolding r using W by blast
    next
      fix k h item
      assume a: "map_of (pendingRequests (rm ?w)) k = Some h"
        and b: "map_of (dataCache (rm ?w)) k = Some item"
      from b have b': "map_of (dataCache (snd ?g)) k = Some item" unfolding f by simp
      show "\<not> truthy (data item)"
      proof (cases "k = key")
        case True
        with b' start(1) show ?thesis by (auto dest: get_falsy_stays_falsy)
      next
        case False
        with a have "map_of (pendingRequests (rm w)) k = Some h"
          unfolding f by (simp add: map_of_Map_set)
        moreover from b' have "map_of (dataCache (rm w)) k = Some item" by (rule get_map_of_Some)
        ultimately show ?thesis by (rule T)
      qed
    qed
  qed
qed

lemma inv_step_Settled:
  assumes "consistent w"
  shows "consistent (step w (Settled h outcome now))"
proof (cases "\<exists>key. running w h key")
  case False
  then have "step w (Settled h outcome now) = w"
    using invD(3) [OF assms] by (rule step_settle_noop)
  with assms show ?thesis by simp
next
  case True
  then obtain key where run: "running w h key" ..
  let ?w = "step w (Settled h outcome now)"
  note P = invD(1) [OF assms] and F = invD(2) [OF assms] and D = invD(3) [OF assms]
    and S = invD(4) [OF assms] and Q = invD(5) [OF assms] and W = invD(6) [OF assms]
    and T = invD(7) [OF assms]
  from running_producer [OF D run]
  have pk: "map_of (producers w) h = Some key" and ns: "h \<notin> set (settledHandles w)" by simp_all
  note eq = step_settle [OF pk ns, of outcome now]
  have f: "pendingRequests (rm ?w) = Map_delete (pendingRequests (rm w)) key"
    "producers ?w = producers w"
    "settledHandles ?w = h # settledHandles w" "nextHandle ?w = nextHandle w"
    "waiting ?w = filter (\<lambda>(c, q). q \<noteq> h) (waiting w)"
    "dataCache (rm ?w) = dataCache (settle (rm w) now key outcome)"
    unfolding eq by simp_all
  have r: "\<And>h' k. running ?w h' k = (running w h' k \<and> h' \<noteq> h)"
    unfolding running_def f by auto
  have pend: "map_of (pendingRequests (rm w)) key = Some h"
    using run by (simp only: P)
  have only: "h' = h" if "running w h' key" for h'
  proof -
    from that have "map_of (pendingRequests (rm w)) key = Some h'" by (simp only: P)
    with pend show ?thesis by simp
  qed
  have other: "k = key" if "running w h k" for k
    using D that run by (rule running_unique_key)
  have hlt: "h < nextHandle w"
    using run F [of h key] by (simp add: running_def)
  show ?thesis
  proof (rule invI)
    fix k h'
    show "(map_of (pendingRequests (rm ?w)) k = Some h') = running ?w h' k"
    proof (cases "k = key")
      case True
      then show ?thesis
        unfolding r f using only [of h'] by (auto simp: map_of_Map_delete)
    next
      case False
      then show ?thesis
        unfolding r f using other [of k] P [of k h'] by (auto simp: map_of_Map_delete)
    qed
  next
    fix h' k assume "(h', k) \<in> set (producers ?w)"
    then show "h' < nextHandle ?w" unfolding f by (rule F)
  next
    show "distinct (map fst (producers ?w))" unfolding f by (rule D)
  next
    fix h' assume "h' \<in> set (settledHandles ?w)"
    then have "h' = h \<or> h' \<in> set (settledHandles w)" unfolding f by simp
    then show "h' < nextHandle ?w" unfolding f using S [of h'] hlt by blast
  next
    show "distinct (map fst (pendingRequests (rm ?w)))"
      unfolding f using Q by (rule distinct_Map_delete)
  next
    fix c h' assume "(c, h') \<in> set (waiting ?w)"
    then have "(c, h') \<in> set (waiting w)" "h' \<noteq> h" unfolding f by auto
    then show "\<exists>k. running ?w h' k" unfolding r using W by blast
  next
    fix k h' item
    assume a: "map_of (pendingRequests (rm ?w)) k = Some h'"
      and b: "map_of (dataCache (rm ?w)) k = Some item"
    from a have k: "k \<noteq> key" and a': "map_of (pendingRequests (rm w)) k = Some h'"
      unfolding f by (auto simp: map_of_Map_delete split: if_splits)
    from b have "map_of (dataCache (settle (rm w) now key outcome)) k = Some item"
      unfolding f .
    with k have "map_of (dataCache (rm w)) k = Some item"
      by (rule settle_map_of_other)
    with a' show "\<not> truthy (data item)" by (rule T)
  qed
qed

lemma inv_step: "consistent w \<Longrightarrow> consistent (step w e)"
  by (cases e) (simp_all only: inv_step_Request inv_step_Settled)

lemma run_Nil: "run w [] = w"
  by (simp add: run_def)

lemma run_Cons: "run w (e # es) = run (step w e) es"
  by (simp add: run_def)

lemma run_snoc: "run w (es @ [e]) = step (run w es) e"
  by (simp add: run_def)

lemma inv_run: "consistent w \<Longrightarrow> consistent (run w es)"
  by (induction es arbitrary: w) (simp_all only: run_Nil run_Cons inv_step)

lemma inv_init: "consistent (init opts)"
  by (simp add: consistent_def init_def new_RequestManager_def running_def)


subsection \<open>A wave of callers on one key\<close>

text \<open>
  While a producer for a key is in flight and has not settled, every event leaves its
  registration, the invocations for the key and, but for new callers of the key, the
  callers awaiting it as they are.
\<close>

lemma wave_step:
  assumes "consistent w" and pend: "map_of (pendingRequests (rm w)) key = Some p"
    and ns: "\<not> settles p e"
  shows "map_of (pendingRequests (rm (step w e))) key = Some p \<and>
         invocations (step w e) key = invocations w key \<and>
         waiters (step w e) p = waiters w p @ callers_of key [e]"
proof (cases e)
  case (Request c k now)
  let ?g = "getFromDataCache (rm w) now k"
  let ?w = "step w (Request c k now)"
  note P = invD(1) [OF assms(1)] and F = invD(2) [OF assms(1)] and D = invD(3) [OF assms(1)]
    and T = invD(7) [OF assms(1)]
  have runp: "running w p key" using pend by (simp only: P)
  consider (hit) "truthy (fst ?g)"
    | (join) q where "\<not> truthy (fst ?g)" "map_of (pendingRequests (rm w)) k = Some q"
    | (start) "\<not> truthy (fst ?g)" "map_of (pendingRequests (rm w)) k = None"
    by (cases "map_of (pendingRequests (rm w)) k") auto
  then have "map_of (pendingRequests (rm ?w)) key = Some p \<and>
         invocations ?w key = invocations w key \<and>
         waiters ?w p = waiters w p @ (if k = key then [c] else [])"
  proof cases
    case hit
    have "k \<noteq> key"
    proof
      assume "k = key"
      with pend have "\<not> truthy (fst ?g)"
        by (auto intro!: get_of_falsy dest: T)
      with hit show False by simp
    qed
    then show ?thesis
      unfolding step_hit [OF hit] using pend by (simp add: invocations_def waiters_def)
  next
    case join
    have "q = p \<longleftrightarrow> k = key"
    proof
      assume "q = p"
      with join(2) have "running w p k" by (simp only: P)
      with D show "k = key" using runp by (rule running_unique_key)
    next
      assume "k = key"
      with join(2) pend show "q = p" by simp
    qed
    then show ?thesis
      unfolding step_join [OF join] using pend by (simp add: invocations_def waiters_def)
  next
    case start
    have k: "k \<noteq> key" using start(2) pend by auto
    have "p < nextHandle w" using runp F [of p key] by (simp add: running_def)
    then have "nextHandle w \<noteq> p" by simp
    with k show ?thesis
      unfolding step_start [OF start] using pend
      by (simp add: invocations_def waiters_def map_of_Map_set)
  qed
  then show ?thesis unfolding Request by simp
next
  case (Settled h outcome now)
  with ns have hp: "h \<noteq> p" by simp
  note P = invD(1) [OF assms(1)] and D = invD(3) [OF assms(1)]
  show ?thesis
  proof (cases "\<exists>k. running w h k")
    case False
    then have "step w (Settled h outcome now) = w"
      using D by (rule step_settle_noop)
    then show ?thesis unfolding Settled using pend by simp
  next
    case True
    then obtain k where run: "running w h k" ..
    from running_producer [OF D run]
    have pk: "map_of (producers w) h = Some k" and nset: "h \<notin> set (settledHandles w)"
      by simp_all
    have "k \<noteq> key"
    proof
      assume "k = key"
      with run have "map_of (pendingRequests (rm w)) key = Some h" by (simp only: P)
      with pend hp show False by simp
    qed
    moreover have "filter (\<lambda>(c, q). q = p) (filter (\<lambda>(c, q). q \<noteq> h) (waiting w)) =
        filter (\<lambda>(c, q). q = p) (waiting w)"
      using hp by (auto intro!: filter_cong)
    ultimately show ?thesis
      unfolding Settled step_settle [OF pk nset] using pend
      by (simp add: invocations_def waiters_def map_of_Map_delete)
  qed
qed

lemma callers_of_append: "callers_of key (es @ es') = callers_of key es @ callers_of key es'"
  by (induction key es rule: callers_of.induct) simp_all

lemma wave_run:
  assumes "consistent w" and "map_of (pendingRequests (rm w)) key = Some p"
    and "\<forall>e \<in> set es. \<not> settles p e"
  shows "consistent (run w es) \<and>
         map_of (pendingRequests (rm (run w es))) key = Some p \<and>
         invocations (run w es) key = invocations w key \<and>
         waiters (run w es) p = waiters w p @ callers_of key es"
  using assms(3)
proof (induction es rule: rev_induct)
  case Nil
  with assms show ?case by (simp add: run_Nil)
next
  case (snoc e es)
  then have IH: "consistent (run w es)" "map_of (pendingRequests (rm (run w es))) key = Some p"
    "invocations (run w es) key = invocations w key"
    "waiters (run w es) p = waiters w p @ callers_of key es"
    and ns: "\<not> settles p e"
    by simp_all
  from wave_step [OF IH(1) IH(2) ns] IH inv_step [OF IH(1), of e]
  show ?case
    by (simp add: run_snoc callers_of_append)
qed

lemma settle_delivers:
  assumes "consistent w" "map_of (pendingRequests (rm w)) key = Some p"
  shows "delivered (step w (Settled p outcome now)) =
           delivered w @ map (\<lambda>c. (c, outcome)) (waiters w p) \<and>
         invocations (step w (Settled p outcome now)) key = invocations w key \<and>
         map_of (pendingRequests (rm (step w (Settled p outcome now)))) key = None \<and>
         \<not> running (step w (Settled p outcome now)) p key \<and>
         dataCache (rm (step w (Settled p outcome now))) =
           (case outcome of Inr d \<Rightarrow> dataCache (setToDataCache (rm w) now key d)
            | Inl err \<Rightarrow> dataCache (rm w))"
proof -
  have run: "running w p key" using assms(2) by (simp only: invD(1) [OF assms(1)])
  from running_producer [OF invD(3) [OF assms(1)] run]
  have pk: "map_of (producers w) p = Some key" and nset: "p \<notin> set (settledHandles w)"
    by simp_all
  show ?thesis
    unfolding step_settle [OF pk nset]
    by (simp add: invocations_def waiters_def map_of_Map_delete running_def comp_def
        case_prod_unfold)
qed

lemma fetch_Network_iff:
  "fst (fetch this now key q) = Network p \<longleftrightarrow>
     \<not> truthy (fst (getFromDataCache this now key)) \<and>
     map_of (pendingRequests this) key = None \<and> p = q"
  by (auto simp: fetch_sel Let_def split: option.splits)

lemma no_waiters_on_fresh:
  assumes "consistent w"
  shows "waiters w (nextHandle w) = []"
proof -
  have "q \<noteq> nextHandle w" if "(c, q) \<in> set (waiting w)" for c q
  proof -
    from invD(6) [OF assms that] obtain k where "running w q k" ..
    then have "q < nextHandle w" using invD(2) [OF assms, of q k] by (simp add: running_def)
    then show ?thesis by simp
  qed
  then show ?thesis
    by (auto simp: waiters_def filter_empty_conv)
qed

lemma wave_start:
  assumes "consistent w" and net: "fst (fetch (rm w) now key (nextHandle w)) = Network p"
  shows "p = nextHandle w \<and>
         map_of (pendingRequests (rm (step w (Request c key now)))) key = Some p \<and>
         invocations (step w (Request c key now)) key = invocations w key @ [p] \<and>
         waiters (step w (Request c key now)) p = [c]"
proof -
  from net have falsy: "\<not> truthy (fst (getFromDataCache (rm w) now key))"
    and none: "map_of (pendingRequests (rm w)) key = None" and p: "p = nextHandle w"
    by (simp_all add: fetch_Network_iff)
  show ?thesis
    unfolding step_start [OF falsy none] p
    using no_waiters_on_fresh [OF assms(1)]
    by (simp add: map_of_Map_set invocations_def waiters_def)
qed

lemma wave:
  assumes "consistent w" and net: "fst (fetch (rm w) now key (nextHandle w)) = Network p"
    and quiet: "\<forall>e \<in> set es. \<not> settles p e"
  shows "consistent (run (step w (Request c key now)) es) \<and>
         map_of (pendingRequests (rm (run (step w (Request c key now)) es))) key = Some p \<and>
         invocations (run (step w (Request c key now)) es) key = invocations w key @ [p] \<and>
         waiters (run (step w (Request c key now)) es) p = c # callers_of key es"
proof -
  let ?w1 = "step w (Request c key now)"
  have i1: "consistent ?w1" using assms(1) by (rule inv_step)
  from wave_start [OF assms(1) net, of c]
  have s: "map_of (pendingRequests (rm ?w1)) key = Some p"
    "invocations ?w1 key = invocations w key @ [p]" "waiters ?w1 p = [c]"
    by blast+
  from wave_run [OF i1 s(1) quiet] s show ?thesis by simp
qed

lemma fetch_after_rejection:
  assumes "consistent w" "map_of (pendingRequests (rm w)) key = Some p"
  shows "fst (fetch (rm (step w (Settled p (Inl err) now))) now' key q) = Network q"
proof -
  let ?w = "step w (Settled p (Inl err) now)"
  from settle_delivers [OF assms, of "Inl err" now]
  have none: "map_of (pendingRequests (rm ?w)) key = None"
    and same: "dataCache (rm ?w) = dataCache (rm w)"
    by simp_all
  have "\<not> truthy (data item)" if "map_of (dataCache (rm ?w)) key = Some item" for item
    using invD(7) [OF assms(1) assms(2)] that unfolding same by simp
  then have "\<not> truthy (fst (getFromDataCache (rm ?w) now' key))"
    by (rule get_of_falsy)
  with none show ?thesis by (simp add: fetch_Network_iff)
qed

lemma in_flight_iff: "in_flight w key \<longleftrightarrow> (\<exists>h. running w h key)"
  by (auto simp: in_flight_def running_def list_ex_iff)

text \<open>
  A call that finds neither an unexpired truthy entry in the cache nor a producer in
  flight for the key takes the Network path.
\<close>

lemma miss_and_idle_invokes:
  assumes "consistent w"
    and miss: "case map_of (dataCache (rm w)) key of
                 None \<Rightarrow> True | Some item \<Rightarrow> expiry item < now \<or> \<not> truthy (data item)"
    and idle: "\<not> in_flight w key"
  shows "fst (fetch (rm w) now key q) = Network q"
proof -
  have falsy: "\<not> truthy (fst (getFromDataCache (rm w) now key))"
    using miss by (auto simp: getFromDataCache_def split: option.splits)
  have none: "map_of (pendingRequests (rm w)) key = None"
  proof (cases "map_of (pendingRequests (rm w)) key")
    case None
    then show ?thesis .
  next
    case (Some h)
    then have "running w h key" by (simp only: invD(1) [OF assms(1)])
    with idle show ?thesis by (auto simp: in_flight_iff)
  qed
  from falsy none show ?thesis by (simp add: fetch_Network_iff)
qed

section \<open>Coalescing\<close>

text \<open>
  Claim C1: take any state an execution has reached, a key for which no producer is in
  flight there, and a call of \<^verbatim>\<open>fetch\<close> for the key at a time when the cache holds no
  valid entry for it: none at all, an expired one, or one whose value is falsy. That
  call invokes the producer. Whatever calls and settlements follow before this producer
  settles, it stays the only invocation for the key since the start of the wave, the
  callers awaiting it are the first caller and every later caller of the key, in
  order, and when it resolves with a value each of them receives that value, after
  which no producer is in flight for the key.
\<close>

theorem coalescing_wave:
  assumes "case map_of (dataCache (rm (run (init opts) es0))) key of
             None \<Rightarrow> True | Some item \<Rightarrow> expiry item < now \<or> \<not> truthy (data item)"
    and "\<not> in_flight (run (init opts) es0) key"
    and "\<forall>e \<in> set es. \<not> settles (nextHandle (run (init opts) es0)) e"
  shows
    "(let w = run (init opts) es0;
          p = nextHandle w;
          w1 = step w (Request c key now);
          w2 = run w1 es;
          w3 = step w2 (Settled p (Inr v) t)
      in fst (fetch (rm w) now key p) = Network p \<and>
         invocations w1 key = invocations w key @ [p] \<and>
         in_flight w1 key \<and>
         invocations w2 key = invocations w key @ [p] \<and>
         invocations w3 key = invocations w key @ [p] \<and>
         waiters w2 p = c # callers_of key es \<and>
         delivered w3 = delivered w2 @ map (\<lambda>c'. (c', Inr v)) (c # callers_of key es) \<and>
         \<not> in_flight w3 key)"
proof -
  let ?w = "run (init opts) es0"
  let ?p = "nextHandle ?w"
  let ?w1 = "step ?w (Request c key now)"
  let ?w2 = "run ?w1 es"
  let ?w3 = "step ?w2 (Settled ?p (Inr v) t)"
  have i: "consistent ?w" using inv_init by (rule inv_run)
  have net: "fst (fetch (rm ?w) now key ?p) = Network ?p"
    using i assms(1) assms(2) by (rule miss_and_idle_invokes)
  have i1: "consistent ?w1" using i by (rule inv_step)
  from wave_start [OF i net, of c]
  have w1: "map_of (pendingRequests (rm ?w1)) key = Some ?p"
    "invocations ?w1 key = invocations ?w key @ [?p]"
    by blast+
  from w1(1) have "running ?w1 ?p key" by (simp only: invD(1) [OF i1])
  then have f1: "in_flight ?w1 key" by (auto simp: in_flight_iff)
  from wave [OF i net assms(3), of c]
  have w2: "consistent ?w2" "map_of (pendingRequests (rm ?w2)) key = Some ?p"
    "invocations ?w2 key = invocations ?w key @ [?p]" "waiters ?w2 ?p = c # callers_of key es"
    by simp_all
  from settle_delivers [OF w2(1) w2(2), of "Inr v" t] w2(3) w2(4)
  have w3: "delivered ?w3 = delivered ?w2 @ map (\<lambda>c'. (c', Inr v)) (c # callers_of key es)"
    "invocations ?w3 key = invocations ?w key @ [?p]"
    "map_of (pendingRequests (rm ?w3)) key = None"
    by simp_all
  have i3: "consistent ?w3" using w2(1) by (rule inv_step)
  have f3: "\<not> in_flight ?w3 key"
  proof
    assume "in_flight ?w3 key"
    then obtain h where "running ?w3 h key" by (auto simp: in_flight_iff)
    then have "map_of (pendingRequests (rm ?w3)) key = Some h" by (simp only: invD(1) [OF i3])
    with w3(3) show False by simp
  qed
  from net w1(2) f1 w2(3) w2(4) w3(1) w3(2) f3 show ?thesis
    unfolding Let_def by blast
qed

theorem coalescing_wave_witness:
  "(let w = run (init \<lparr>opt_duration = None, opt_maxSize = None\<rparr>)
              [Request 5 ''a'' 0, Settled 0 (Inr (JNum 0)) 1];
        w2 = run (step w (Request 6 ''a'' 2)) [Request 7 ''a'' 5, Request 8 ''b'' 6];
        w3 = step w2 (Settled 1 (Inr (JNum 7)) 9)
    in invocations w ''a'' = [0] \<and> invocations w2 ''a'' = [0, 1] \<and>
       invocations w3 ''a'' = [0, 1] \<and> waiters w2 1 = [6, 7] \<and>
       delivered w3 = [(5, Inr (JNum 0)), (6, Inr (JNum 7)), (7, Inr (JNum 7))])"
proof -
  let ?opts = "\<lparr>opt_duration = None, opt_maxSize = None\<rparr>"
  have w: "run (init ?opts) [Request 5 ''a'' 0, Settled 0 (Inr (JNum 0)) 1] =
      \<lparr>rm = \<lparr>cacheDuration = 600000, maxSize = 1000,
             dataCache = [(''a'', \<lparr>data = JNum 0, expiry = 600001\<rparr>)],
             pendingRequests = []\<rparr>,
       nextHandle = 1, producers = [(0, ''a'')], settledHandles = [0],
       waiting = [], delivered = [(5, Inr (JNum 0))]\<rparr>"
    by (simp add: run_def init_def new_RequestManager_def js_or_def fetch_def settle_def
        onFinally_def setToDataCache_def getFromDataCache_def Map_set_def Map_delete_def
        Map_delete_first_def Let_def step.simps)
  have w2: "run (step \<lparr>rm = \<lparr>cacheDuration = 600000, maxSize = 1000,
             dataCache = [(''a'', \<lparr>data = JNum 0, expiry = 600001\<rparr>)],
             pendingRequests = []\<rparr>,
       nextHandle = 1, producers = [(0, ''a'')], settledHandles = [0],
       waiting = [], delivered = [(5, Inr (JNum 0))]\<rparr> (Request 6 ''a'' 2))
         [Request 7 ''a'' 5, Request 8 ''b'' 6] =
      \<lparr>rm = \<lparr>cacheDuration = 600000, maxSize = 1000,
             dataCache = [(''a'', \<lparr>data = JNum 0, expiry = 600001\<rparr>)],
             pendingRequests = [(''a'', 1), (''b'', 2)]\<rparr>,
       nextHandle = 3, producers = [(0, ''a''), (1, ''a''), (2, ''b'')], settledHandles = [0],
       waiting = [(6, 1), (7, 1), (8, 2)], delivered = [(5, Inr (JNum 0))]\<rparr>"
    by (simp add: run_def fetch_def getFromDataCache_def Map_set_def Map_delete_def
        Let_def step.simps)
  have a: "case map_of (dataCache (rm (run (init ?opts)
        [Request 5 ''a'' 0, Settled 0 (Inr (JNum 0)) 1]))) ''a'' of
      None \<Rightarrow> True | Some item \<Rightarrow> expiry item < 2 \<or> \<not> truthy (data item)"
    unfolding w by simp
  have b: "\<not> in_flight (run (init ?opts) [Request 5 ''a'' 0, Settled 0 (Inr (JNum 0)) 1]) ''a''"
    unfolding w by (simp add: in_flight_def)
  have c: "\<forall>e \<in> set [Request 7 ''a'' 5, Request 8 ''b'' 6].
      \<not> settles (nextHandle (run (init ?opts) [Request 5 ''a'' 0, Settled 0 (Inr (JNum 0)) 1])) e"
    by simp
  from coalescing_wave [OF a b c, of 6 "JNum 7" 9]
  show ?thesis
    unfolding w Let_def w2 by (simp add: invocations_def)
qed

text \<open>
  Claim C2: in every state an execution reaches, the in-flight registry has one entry
  per key at most, and it has the entry \<open>key \<mapsto> h\<close> exactly when the producer \<open>h\<close> for
  \<open>key\<close> has been invoked and has not settled, so that a key never has two producers
  running. The call that invokes the producer registers it before the call returns,
  and the settlement, fulfilment or rejection alike, removes the entry. A call and a
  settlement are each one event here, as the body of \<^verbatim>\<open>fetch\<close> has no suspension point
  and the \<^verbatim>\<open>.finally\<close> reaction follows the settlement before another task runs.
\<close>

theorem in_flight_registry:
  "(let w = run (init opts) es in
      distinct (map fst (pendingRequests (rm w))) \<and>
      (map_of (pendingRequests (rm w)) key = Some h \<longleftrightarrow> running w h key) \<and>
      (running w h key \<and> running w h' key \<longrightarrow> h = h') \<and>
      (fst (fetch (rm w) now key (nextHandle w)) = Network p \<longrightarrow>
         map_of (pendingRequests (rm w)) key = None \<and>
         map_of (pendingRequests (rm (step w (Request c key now)))) key = Some p \<and>
         running (step w (Request c key now)) p key) \<and>
      (running w h key \<longrightarrow>
         map_of (pendingRequests (rm (step w (Settled h outcome t)))) key = None \<and>
         \<not> running (step w (Settled h outcome t)) h key))"
proof -
  let ?w = "run (init opts) es"
  have i: "consistent ?w" using inv_init by (rule inv_run)
  note P = invD(1) [OF i]
  have one: "h = h'" if "running ?w h key" "running ?w h' key"
  proof -
    from that have "map_of (pendingRequests (rm ?w)) key = Some h"
      "map_of (pendingRequests (rm ?w)) key = Some h'"
      by (simp_all only: P)
    then show ?thesis by simp
  qed
  have start: "map_of (pendingRequests (rm ?w)) key = None \<and>
         map_of (pendingRequests (rm (step ?w (Request c key now)))) key = Some p \<and>
         running (step ?w (Request c key now)) p key"
    if net: "fst (fetch (rm ?w) now key (nextHandle ?w)) = Network p"
  proof -
    have i1: "consistent (step ?w (Request c key now))" using i by (rule inv_step)
    from wave_start [OF i net, of c]
    have "map_of (pendingRequests (rm (step ?w (Request c key now)))) key = Some p" by blast
    moreover from this have "running (step ?w (Request c key now)) p key"
      by (simp only: invD(1) [OF i1])
    moreover from net have "map_of (pendingRequests (rm ?w)) key = None"
      by (simp add: fetch_Network_iff)
    ultimately show ?thesis by blast
  qed
  have stop: "map_of (pendingRequests (rm (step ?w (Settled h outcome t)))) key = None \<and>
         \<not> running (step ?w (Settled h outcome t)) h key"
    if "running ?w h key"
  proof -
    from that have "map_of (pendingRequests (rm ?w)) key = Some h" by (simp only: P)
    from settle_delivers [OF i this, of outcome t] show ?thesis by blast
  qed
  show ?thesis
    unfolding Let_def using invD(5) [OF i] P [of key h] one start stop by blast
qed

theorem in_flight_registry_witness:
  "(let w = run (init \<lparr>opt_duration = None, opt_maxSize = None\<rparr>) [Request 1 ''a'' 0] in
      pendingRequests (rm w) = [(''a'', 0)] \<and> running w 0 ''a'' \<and>
      pendingRequests (rm (step w (Settled 0 (Inl ''boom'') 1))) = [] \<and>
      pendingRequests (rm (step w (Settled 0 (Inr (JNum 1)) 1))) = [] \<and>
      fst (fetch (rm w) 2 ''b'' (nextHandle w)) = Network 1 \<and>
      pendingRequests (rm (step w (Request 2 ''b'' 2))) = [(''a'', 0), (''b'', 1)])"
proof -
  let ?w = "run (init \<lparr>opt_duration = None, opt_maxSize = None\<rparr>) [Request 1 ''a'' 0]"
  have w: "?w = \<lparr>rm = \<lparr>cacheDuration = 600000, maxSize = 1000, dataCache = [],
                         pendingRequests = [(''a'', 0)]\<rparr>,
                  nextHandle = 1, producers = [(0, ''a'')], settledHandles = [],
                  waiting = [(1, 0)], delivered = []\<rparr>"
    by (simp add: run_def init_def new_RequestManager_def js_or_def fetch_def
        getFromDataCache_def step.simps Map_set_def)
  have r: "running ?w 0 ''a''"
    unfolding w by (simp add: running_def)
  have n: "fst (fetch (rm ?w) 2 ''b'' (nextHandle ?w)) = Network 1"
    unfolding w by (simp add: fetch_def getFromDataCache_def)
  have s: "pendingRequests (rm (step ?w (Settled 0 (Inl ''boom'') 1))) = []"
    "pendingRequests (rm (step ?w (Settled 0 (Inr (JNum 1)) 1))) = []"
    "pendingRequests (rm (step ?w (Request 2 ''b'' 2))) = [(''a'', 0), (''b'', 1)]"
    unfolding w
    by (simp_all add: step.simps settle_def onFinally_def setToDataCache_def fetch_def
        getFromDataCache_def Map_delete_def Map_set_def Map_delete_first_def)
  from in_flight_registry [of "\<lparr>opt_duration = None, opt_maxSize = None\<rparr>"
      "[Request 1 ''a'' 0]" "''a''" 0 0 2 1 2 "Inl ''boom''" 1] r n s
  show ?thesis
    unfolding w by (simp add: Let_def)
qed

text \<open>
  Claim C3: when the producer of a wave rejects, the first caller and every caller
  coalesced on the key receive that error, the data cache is left as it was, the
  registry has no entry for the key, and the next call of \<^verbatim>\<open>fetch\<close> for the key, at
  any time, takes the Network path and invokes the producer anew.
\<close>

theorem producer_rejection:
  assumes "fst (fetch (rm (run (init opts) es0)) now key (nextHandle (run (init opts) es0))) = Network p"
    and "\<forall>e \<in> set es. \<not> settles p e"
  shows
    "(let w = run (init opts) es0;
          w2 = run (step w (Request c key now)) es;
          w3 = step w2 (Settled p (Inl err) t)
      in delivered w3 = delivered w2 @ map (\<lambda>c'. (c', Inl err)) (c # callers_of key es) \<and>
         dataCache (rm w3) = dataCache (rm w2) \<and>
         map_of (pendingRequests (rm w3)) key = None \<and>
         fst (fetch (rm w3) now' key (nextHandle w3)) = Network (nextHandle w3) \<and>
         invocations (step w3 (Request c' key now')) key =
           invocations w key @ [p, nextHandle w3])"
proof -
  let ?w = "run (init opts) es0"
  let ?w2 = "run (step ?w (Request c key now)) es"
  let ?w3 = "step ?w2 (Settled p (Inl err) t)"
  have i: "consistent ?w" using inv_init by (rule inv_run)
  from wave [OF i assms, of c]
  have w2: "consistent ?w2" "map_of (pendingRequests (rm ?w2)) key = Some p"
    "invocations ?w2 key = invocations ?w key @ [p]" "waiters ?w2 p = c # callers_of key es"
    by simp_all
  from settle_delivers [OF w2(1) w2(2), of "Inl err" t] w2(3) w2(4)
  have w3: "delivered ?w3 = delivered ?w2 @ map (\<lambda>c'. (c', Inl err)) (c # callers_of key es)"
    "dataCache (rm ?w3) = dataCache (rm ?w2)"
    "map_of (pendingRequests (rm ?w3)) key = None"
    "invocations ?w3 key = invocations ?w key @ [p]"
    by simp_all
  have i3: "consistent ?w3" using w2(1) by (rule inv_step)
  have net: "fst (fetch (rm ?w3) now' key (nextHandle ?w3)) = Network (nextHandle ?w3)"
    using w2(1) w2(2) by (rule fetch_after_rejection)
  from wave_start [OF i3 net, of c'] w3(4)
  have "invocations (step ?w3 (Request c' key now')) key =
      invocations ?w key @ [p, nextHandle ?w3]"
    by simp
  with w3 net show ?thesis by (simp add: Let_def)
qed

theorem producer_rejection_witness:
  "(let w = run (init \<lparr>opt_duration = None, opt_maxSize = None\<rparr>) [];
        w2 = run (step w (Request 7 ''a'' 0)) [Request 8 ''a'' 5];
        w3 = step w2 (Settled 0 (Inl ''boom'') 9)
    in delivered w3 = [(7, Inl ''boom''), (8, Inl ''boom'')] \<and>
       dataCache (rm w3) = [] \<and>
       invocations (step w3 (Request 9 ''a'' 10)) ''a'' = [0, 1])"
proof -
  have a: "fst (fetch (rm (run (init \<lparr>opt_duration = None, opt_maxSize = None\<rparr>) [])) 0 ''a''
      (nextHandle (run (init \<lparr>opt_duration = None, opt_maxSize = None\<rparr>) []))) = Network 0"
    by (simp add: run_def init_def new_RequestManager_def js_or_def fetch_def getFromDataCache_def)
  have b: "\<forall>e \<in> set [Request 8 ''a'' 5]. \<not> settles 0 e"
    by simp
  have w2: "run (step (run (init \<lparr>opt_duration = None, opt_maxSize = None\<rparr>) [])
        (Request 7 ''a'' 0)) [Request 8 ''a'' 5] =
      \<lparr>rm = \<lparr>cacheDuration = 600000, maxSize = 1000, dataCache = [],
             pendingRequests = [(''a'', 0)]\<rparr>,
       nextHandle = 1, producers = [(0, ''a'')], settledHandles = [],
       waiting = [(7, 0), (8, 0)], delivered = []\<rparr>"
    by (simp add: run_def init_def new_RequestManager_def js_or_def fetch_def
        getFromDataCache_def step.simps Map_set_def)
  have c: "invocations (run (init \<lparr>opt_duration = None, opt_maxSize = None\<rparr>) []) ''a'' = []"
    by (simp add: run_def init_def invocations_def)
  have d: "nextHandle (step \<lparr>rm = \<lparr>cacheDuration = 600000, maxSize = 1000, dataCache = [],
             pendingRequests = [(''a'', 0)]\<rparr>,
       nextHandle = 1, producers = [(0, ''a'')], settledHandles = [],
       waiting = [(7, 0), (8, 0)], delivered = []\<rparr> (Settled 0 (Inl ''boom'') 9)) = 1"
    by (simp add: step.simps)
  from producer_rejection [OF a b, of 7 "''boom''" 9 10 9]
  show ?thesis
    unfolding w2 c Let_def d by simp
qed

section \<open>Miss, then hit\<close>

text \<open>
  Claim C8 says that after a first fetch on an empty cache has settled, a second fetch
  of the key before expiry invokes the producer zero times. When the producer resolved
  with a falsy value, here JSON null, the second fetch invokes the producer again: the
  log holds two invocations for the key.
\<close>

theorem falsy_result_is_fetched_again:
  "producers (run (init \<lparr>opt_duration = None, opt_maxSize = None\<rparr>)
     [Request 1 ''k'' 0, Settled 0 (Inr JNull) 10, Request 2 ''k'' 20]) =
     [(0, ''k''), (1, ''k'')]"
  by (simp add: run_def init_def new_RequestManager_def js_or_def fetch_def settle_def
      onFinally_def setToDataCache_def getFromDataCache_def Map_set_def Map_delete_def
      Map_delete_first_def Let_def step.simps)

text \<open>
  Claim C8, amended: starting from an empty cache, fetch invokes the producer once,
  and when the producer resolves, with whatever value, the value is stored under the
  key, the caller receives it and the in-flight registry is empty again; if the
  value is truthy, a second fetch of the key issued after the first has settled and
  before expiry returns the cached value at once, invokes no producer and leaves the
  in-flight registry untouched.
\<close>

theorem miss_then_hit:
  "(let w1 = step (init opts) (Request c1 key t1);
        w2 = step w1 (Settled 0 (Inr v) t2);
        w3 = step w2 (Request c2 key t3)
    in fst (fetch (rm (init opts)) t1 key (nextHandle (init opts))) = Network 0 \<and>
       producers w1 = [(0, key)] \<and>
       pendingRequests (rm w1) = [(key, 0)] \<and>
       producers w2 = [(0, key)] \<and>
       dataCache (rm w2) =
         [(key, \<lparr>data = v, expiry = t2 + cacheDuration (new_RequestManager opts)\<rparr>)] \<and>
       delivered w2 = [(c1, Inr v)] \<and>
       pendingRequests (rm w2) = [] \<and>
       (truthy v \<and> t3 < t2 + cacheDuration (new_RequestManager opts) \<longrightarrow>
          fst (fetch (rm w2) t3 key (nextHandle w2)) = CacheHit v \<and>
          producers w3 = [(0, key)] \<and>
          pendingRequests (rm w3) = [] \<and>
          delivered w3 = [(c1, Inr v), (c2, Inr v)]))"
  by (simp add: init_def new_RequestManager_def fetch_def settle_def
      onFinally_def setToDataCache_def getFromDataCache_def Map_set_def Map_delete_def
      Map_delete_first_def Let_def step.simps)

theorem miss_then_hit_witness:
  "(let w1 = step (init \<lparr>opt_duration = None, opt_maxSize = None\<rparr>) (Request 1 ''k'' 0);
        w2 = step w1 (Settled 0 (Inr (JNum 5)) 10);
        w3 = step w2 (Request 2 ''k'' 20)
    in producers w1 = [(0, ''k'')] \<and>
       dataCache (rm w2) = [(''k'', \<lparr>data = JNum 5, expiry = 600010\<rparr>)] \<and>
       producers w3 = [(0, ''k'')] \<and>
       delivered w3 = [(1, Inr (JNum 5)), (2, Inr (JNum 5))]) \<and>
   (let w1 = step (init \<lparr>opt_duration = None, opt_maxSize = None\<rparr>) (Request 1 ''k'' 0);
        w2 = step w1 (Settled 0 (Inr JNull) 10)
    in producers w2 = [(0, ''k'')] \<and>
       dataCache (rm w2) = [(''k'', \<lparr>data = JNull, expiry = 600010\<rparr>)] \<and>
       delivered w2 = [(1, Inr JNull)] \<and> pendingRequests (rm w2) = [])"
  using
    miss_then_hit [of "\<lparr>opt_duration = None, opt_maxSize = None\<rparr>" 1 "''k''" 0 "JNum 5" 10 2 20]
    miss_then_hit [of "\<lparr>opt_duration = None, opt_maxSize = None\<rparr>" 1 "''k''" 0 JNull 10 2 20]
  by (simp add: Let_def new_RequestManager_def js_or_def)

end
